theory Spec2Isabelle
  imports Main "HOL-Library.Sublist"
begin

section \<open>Text: characters, whitespace, line boundaries\<close>

text \<open>
  The program is Python 3 and works on \<open>str\<close> values. A text is modelled as a
  \<open>string\<close>; a \<open>char\<close> stands for the code point of the same number (U+0000 to U+00FF).
  The two character classes below are Python's, restricted to that range:
  \<^item> \<open>is_space\<close>: the characters that \<open>str.strip()\<close> removes and that \<open>\s\<close> matches in a
    \<open>str\<close> pattern (both test \<open>str.isspace\<close>);
  \<^item> \<open>is_linebreak\<close>: the boundaries at which \<open>str.splitlines()\<close> splits.
\<close>

abbreviation LF :: char where "LF \<equiv> CHR 0x0A"
abbreviation CR :: char where "CR \<equiv> CHR 0x0D"

definition is_space :: "char \<Rightarrow> bool" where
  "is_space c \<longleftrightarrow> c \<in> set [CHR 0x09, CHR 0x0A, CHR 0x0B, CHR 0x0C, CHR 0x0D,
                           CHR 0x1C, CHR 0x1D, CHR 0x1E, CHR 0x1F, CHR 0x20, CHR 0x85, CHR 0xA0]"

definition is_linebreak :: "char \<Rightarrow> bool" where
  "is_linebreak c \<longleftrightarrow> c \<in> set [CHR 0x0A, CHR 0x0B, CHR 0x0C, CHR 0x0D,
                               CHR 0x1C, CHR 0x1D, CHR 0x1E, CHR 0x85]"

text \<open>\<open>str.strip()\<close>: leading and trailing whitespace removed.\<close>

definition strip :: "string \<Rightarrow> string" where
  "strip s = rev (dropWhile is_space (rev (dropWhile is_space s)))"

text \<open>
  \<open>str.splitlines()\<close>: the lines of a text without their line boundaries. \<open>\r\n\<close> is one
  boundary; a boundary at the very end does not open another (empty) line; the empty
  text has no line.
\<close>

fun splitlines :: "string \<Rightarrow> string list" where
  "splitlines [] = []"
| "splitlines [c] = (if is_linebreak c then [[]] else [[c]])"
| "splitlines (c # c' # cs) =
     (if c = CR \<and> c' = LF then [] # splitlines cs
      else if is_linebreak c then [] # splitlines (c' # cs)
      else (case splitlines (c' # cs) of
              [] \<Rightarrow> [[c]]
            | l # ls \<Rightarrow> (c # l) # ls))"

text \<open>
  \<open>str.replace(old, new)\<close>: every occurrence of \<open>old\<close> replaced, found from left to
  right without overlap. (For an empty \<open>old\<close> Python puts \<open>new\<close> before every character
  and at the end.)
\<close>

function str_replace :: "string \<Rightarrow> string \<Rightarrow> string \<Rightarrow> string" where
  "str_replace old new s =
     (if old = [] then new @ concat (map (\<lambda>c. c # new) s)
      else if s = [] then []
      else if prefix old s then new @ str_replace old new (drop (length old) s)
      else hd s # str_replace old new (tl s))"
  by pat_completeness auto
termination
  by (relation "measure (\<lambda>(old, new, s). length s)") auto

declare str_replace.simps [simp del]

definition endswith :: "string \<Rightarrow> string \<Rightarrow> bool" where
  "endswith s e \<longleftrightarrow> suffix e s"

section \<open>The two patterns\<close>

text \<open>
  Both patterns are matched by backtracking. Each function below is one part of a
  pattern, matched at the start of its argument together with everything that follows it
  in the pattern, alternatives tried in the matcher's order; the result is what the named
  groups capture, \<open>None\<close> when there is no match.
\<close>

fun first_some :: "('a \<Rightarrow> 'b option) \<Rightarrow> 'a list \<Rightarrow> 'b option" where
  "first_some f [] = None"
| "first_some f (x # xs) = (case f x of Some y \<Rightarrow> Some y | None \<Rightarrow> first_some f xs)"

subsection \<open>\<open>template\<close>\<close>

text \<open>
  \<^verbatim>\<open>---NL(?P<header>.*?)(?P<linesep>NL)---NL(?P<content>.*)\<close> with \<^verbatim>\<open>NL = \r\n?|\n\<close>,
  compiled with \<^verbatim>\<open>re.S\<close> (the dot matches every character) and \<^verbatim>\<open>re.X\<close> (the blanks and
  comments of the pattern are dropped).

  \<open>nl_alternatives s\<close>: the ways \<^verbatim>\<open>\r\n?|\n\<close> matches at the start of \<open>s\<close>, in the order
  tried (the optional \<^verbatim>\<open>\n\<close> is greedy), each with the text left over.
\<close>

definition nl_alternatives :: "string \<Rightarrow> (string \<times> string) list" where
  "nl_alternatives s =
     (case s of
        [] \<Rightarrow> []
      | c # r \<Rightarrow>
          if c = CR then
            (case r of
               [] \<Rightarrow> [([CR], [])]
             | c' # r' \<Rightarrow> if c' = LF then [([CR, LF], r'), ([CR], r)] else [([CR], r)])
          else if c = LF then [([LF], r)]
          else [])"

text \<open>
  \<^verbatim>\<open>---NL(?P<content>.*)\<close>: the greedy \<^verbatim>\<open>.*\<close> ends the pattern and takes all the rest, so
  the first way of matching \<^verbatim>\<open>NL\<close> is the one kept.
\<close>

definition closing_match :: "string \<Rightarrow> string option" where
  "closing_match s =
     (if prefix ''---'' s then
        (case nl_alternatives (drop 3 s) of
           [] \<Rightarrow> None
         | (nl, c) # _ \<Rightarrow> Some c)
      else None)"

text \<open>\<^verbatim>\<open>(?P<linesep>NL)---NL(?P<content>.*)\<close>: the captured line separator and the content.\<close>

definition linesep_match :: "string \<Rightarrow> (string \<times> string) option" where
  "linesep_match s =
     first_some (\<lambda>(ls, r). map_option (Pair ls) (closing_match r)) (nl_alternatives s)"

text \<open>
  \<^verbatim>\<open>(?P<header>.*?)\<close> and the rest: the lazy star first tries the empty header and takes
  one more character each time the rest of the pattern fails.
\<close>

fun header_match :: "string \<Rightarrow> (string \<times> string \<times> string) option" where
  "header_match [] = None"
| "header_match (x # r) =
     (case linesep_match (x # r) of
        Some (ls, c) \<Rightarrow> Some ([], ls, c)
      | None \<Rightarrow> map_option (\<lambda>(h, ls, c). (x # h, ls, c)) (header_match r))"

text \<open>
  \<open>template.match(text)\<close>: anchored at the start of the text. The result is the group
  dictionary as the triple (header, linesep, content).
\<close>

definition template_match :: "string \<Rightarrow> (string \<times> string \<times> string) option" where
  "template_match text =
     (if prefix ''---'' text then
        first_some (\<lambda>(nl, r). header_match r) (nl_alternatives (drop 3 text))
      else None)"

subsection \<open>\<open>line_template\<close>\<close>

text \<open>
  \<^verbatim>\<open>^(?P<key>.*?):\s*(?P<val>.*)$\<close>, compiled without flags: the dot matches every
  character but \<^verbatim>\<open>\n\<close>, and \<^verbatim>\<open>$\<close> holds at the end of the text and before a final \<^verbatim>\<open>\n\<close>.

  \<^verbatim>\<open>(?P<val>.*)$\<close>: the greedy star stops at the first \<^verbatim>\<open>\n\<close> or at the end. Giving
  characters back never helps: \<^verbatim>\<open>$\<close> would then stand before a character that is not
  \<^verbatim>\<open>\n\<close>.
\<close>

definition val_match :: "string \<Rightarrow> string option" where
  "val_match s =
     (let v = takeWhile (\<lambda>c. c \<noteq> LF) s;
          r = dropWhile (\<lambda>c. c \<noteq> LF) s
      in if r = [] \<or> r = [LF] then Some v else None)"

text \<open>\<^verbatim>\<open>\s*(?P<val>.*)$\<close>: the greedy star takes a whitespace character before it tries to go on.\<close>

fun space_val_match :: "string \<Rightarrow> string option" where
  "space_val_match [] = val_match []"
| "space_val_match (c # r) =
     (if is_space c then
        (case space_val_match r of
           Some v \<Rightarrow> Some v
         | None \<Rightarrow> val_match (c # r))
      else val_match (c # r))"

text \<open>
  \<open>line_template.match(line)\<close>: the lazy key first tries to end where it stands, at a
  colon followed by a match of the rest, and otherwise takes one more character.
  The result is the pair (key, val).
\<close>

fun line_template_match :: "string \<Rightarrow> (string \<times> string) option" where
  "line_template_match [] = None"
| "line_template_match (c # r) =
     (case (if c = CHR '':'' then space_val_match r else None) of
        Some v \<Rightarrow> Some ([], v)
      | None \<Rightarrow>
          if c = LF then None
          else map_option (\<lambda>(k, v). (c # k, v)) (line_template_match r))"

section \<open>\<open>parse_snippet\<close>\<close>

datatype error = SyntaxError string

record snippet =
  path :: string
  name :: string
  description :: string
  tabTrigger :: string
  scope :: string
  linesep :: string
  content :: string

definition parse_val :: "string \<Rightarrow> string" where
  "parse_val text = strip text"

text \<open>The body of the loop over the header's lines.\<close>

definition header_line :: "string \<Rightarrow> snippet \<Rightarrow> error + snippet" where
  "header_line line sn =
     (case line_template_match line of
        None \<Rightarrow> Inl (SyntaxError ''Unable to parse SaneSnippet header'')
      | Some (k, v) \<Rightarrow>
          (let key = strip k in
           if key = ''description'' then Inr (sn\<lparr>description := parse_val v\<rparr>)
           else if key = ''tabTrigger'' then Inr (sn\<lparr>tabTrigger := parse_val v\<rparr>)
           else if key = ''scope'' then Inr (sn\<lparr>scope := parse_val v\<rparr>)
           else Inl (SyntaxError (''Unexpected SaneSnippet property: \"'' @ key @ ''\"''))))"

fun header_lines :: "string list \<Rightarrow> snippet \<Rightarrow> error + snippet" where
  "header_lines [] sn = Inr sn"
| "header_lines (line # lines) sn =
     (case header_line line sn of
        Inl e \<Rightarrow> Inl e
      | Inr sn' \<Rightarrow> header_lines lines sn')"

text \<open>
  The dictionary starts with \<open>linesep = os.linesep\<close> and without \<open>content\<close>; both are set
  from the match before anything is returned, so the record is built after the match.
\<close>

definition parse_snippet :: "string \<Rightarrow> string \<Rightarrow> string \<Rightarrow> error + snippet" where
  "parse_snippet p n text =
     (case template_match text of
        None \<Rightarrow> Inl (SyntaxError ''Unable to parse SaneSnippet'')
      | Some (h, ls, c) \<Rightarrow>
          header_lines (splitlines h)
            \<lparr>path = p, name = n, description = n, tabTrigger = [], scope = [],
             linesep = ls, content = c\<rparr>)"

section \<open>Pairing of source and generated files\<close>

definition EXT_SANESNIPPET :: string where
  "EXT_SANESNIPPET = ''.sane-snippet''"

definition EXT_SNIPPET_SANE :: string where
  "EXT_SNIPPET_SANE = ''.sane.sublime-snippet''"

definition swap_extension :: "string \<Rightarrow> string" where
  "swap_extension p =
     (if endswith p EXT_SNIPPET_SANE then str_replace EXT_SNIPPET_SANE EXT_SANESNIPPET p
      else str_replace EXT_SANESNIPPET EXT_SNIPPET_SANE p)"


section \<open>Notions used to state the properties\<close>

text \<open>
  What the loop body reads off a header line: the trimmed key and the trimmed value, when
  \<open>line_template\<close> matches it.
\<close>

definition header_entry :: "string \<Rightarrow> (string \<times> string) option" where
  "header_entry line = map_option (\<lambda>(k, v). (strip k, parse_val v)) (line_template_match line)"

definition recognized_keys :: "string list" where
  "recognized_keys = [''description'', ''tabTrigger'', ''scope'']"

text \<open>A line the loop body accepts: it has an entry, and the key is one of the three.\<close>

definition valid_header_line :: "string \<Rightarrow> bool" where
  "valid_header_line line =
     (case header_entry line of
        None \<Rightarrow> False
      | Some (k, v) \<Rightarrow> k \<in> set recognized_keys)"

text \<open>
  The spec's words for a header line: the text before the first colon and the text after
  it.
\<close>

definition before_first_colon :: "string \<Rightarrow> string" where
  "before_first_colon line = takeWhile (\<lambda>c. c \<noteq> CHR '':'') line"

definition after_first_colon :: "string \<Rightarrow> string" where
  "after_first_colon line = tl (dropWhile (\<lambda>c. c \<noteq> CHR '':'') line)"

text \<open>
  Reading header lines by the spec's words. \<open>split_at_first_colon\<close> cuts a line at its
  first colon and trims both sides; a line without a colon has no key and no value.
  \<open>read_lines_by_colon\<close> reads a list of lines this way, one after the other: a line
  without a colon is the header-line error, a recognized key sets its field, any other
  key is the unknown-key error. \<open>parse_by_first_colon\<close> reads this way the lines that
  \<open>str.splitlines()\<close> finds in the header captured by the template.
\<close>

definition split_at_first_colon :: "string \<Rightarrow> (string \<times> string) option" where
  "split_at_first_colon line =
     (if CHR '':'' \<in> set line
      then Some (strip (before_first_colon line), strip (after_first_colon line))
      else None)"

fun read_lines_by_colon :: "string list \<Rightarrow> snippet \<Rightarrow> error + snippet" where
  "read_lines_by_colon [] sn = Inr sn"
| "read_lines_by_colon (line # lines) sn =
     (case split_at_first_colon line of
        None \<Rightarrow> Inl (SyntaxError ''Unable to parse SaneSnippet header'')
      | Some (key, val) \<Rightarrow>
          if key = ''description'' then read_lines_by_colon lines (sn\<lparr>description := val\<rparr>)
          else if key = ''tabTrigger'' then read_lines_by_colon lines (sn\<lparr>tabTrigger := val\<rparr>)
          else if key = ''scope'' then read_lines_by_colon lines (sn\<lparr>scope := val\<rparr>)
          else Inl (SyntaxError (''Unexpected SaneSnippet property: \"'' @ key @ ''\"'')))"

definition parse_by_first_colon :: "string \<Rightarrow> string \<Rightarrow> string \<Rightarrow> error + snippet" where
  "parse_by_first_colon p n text =
     (case template_match text of
        None \<Rightarrow> Inl (SyntaxError ''Unable to parse SaneSnippet'')
      | Some (h, ls, c) \<Rightarrow>
          read_lines_by_colon (splitlines h)
            \<lparr>path = p, name = n, description = n, tabTrigger = [], scope = [],
             linesep = ls, content = c\<rparr>)"

text \<open>
  The value of the last line with a given key, and a default when no line has that key.
\<close>

definition last_value :: "string \<Rightarrow> string \<Rightarrow> string list \<Rightarrow> string" where
  "last_value key dflt lines =
     (case map_of (rev (List.map_filter header_entry lines)) key of
        None \<Rightarrow> dflt
      | Some v \<Rightarrow> v)"

text \<open>
  The delimiter structure of a document, as a grammar: \<open>---\<close>, a newline, a header, a
  newline, \<open>---\<close>, a newline, the content; a newline is \<open>\n\<close>, \<open>\r\n\<close> or \<open>\r\<close>.
\<close>

definition newline :: "string \<Rightarrow> bool" where
  "newline s \<longleftrightarrow> s \<in> set [[LF], [CR, LF], [CR]]"

definition delimited :: "string \<Rightarrow> bool" where
  "delimited text \<longleftrightarrow>
     (\<exists>nl1 h ls nl2 c. text = ''---'' @ nl1 @ h @ ls @ ''---'' @ nl2 @ c
        \<and> newline nl1 \<and> newline ls \<and> newline nl2)"

text \<open>
  A header written line by line: each line with the newline that ends it. \<open>header_block\<close>
  is the text of these lines, \<open>header_of\<close> the same text without the last newline.
  A plain line has no line boundary inside.
\<close>

definition header_block :: "(string \<times> string) list \<Rightarrow> string" where
  "header_block hl = concat (map (\<lambda>(l, nl). l @ nl) hl)"

definition header_of :: "(string \<times> string) list \<Rightarrow> string" where
  "header_of hl = header_block (butlast hl) @ fst (last hl)"

definition plain_line :: "string \<Rightarrow> bool" where
  "plain_line l \<longleftrightarrow> list_all (\<lambda>c. \<not> is_linebreak c) l"

text \<open>
  A well-formed header: at least one line, every line a valid header line without a line
  boundary inside, and ended by a newline.
\<close>

definition wellformed_header :: "(string \<times> string) list \<Rightarrow> bool" where
  "wellformed_header hl \<longleftrightarrow>
     hl \<noteq> [] \<and> list_all (\<lambda>(l, nl). valid_header_line l \<and> plain_line l \<and> newline nl) hl"

text \<open>
  A header block written line by line, where lines may be empty or invalid: every line is
  plain and is not the delimiter \<open>---\<close>, and no \<open>\r\<close> that ends a line is followed by an
  empty line ended by \<open>\n\<close> (the two would read as one \<open>\r\n\<close>). \<open>prev\<close> is the newline before
  the first line. \<open>read_lines\<close> are the lines \<open>str.splitlines()\<close> finds in the header the
  template captures from such a block: an empty last line is not among them.
\<close>

fun block_ok :: "string \<Rightarrow> (string \<times> string) list \<Rightarrow> bool" where
  "block_ok prev [] = True"
| "block_ok prev ((l, nl) # hl) =
     (plain_line l \<and> l \<noteq> ''---'' \<and> newline nl
      \<and> \<not> (prev = [CR] \<and> l = [] \<and> prefix [LF] nl) \<and> block_ok nl hl)"

definition read_lines :: "(string \<times> string) list \<Rightarrow> string list" where
  "read_lines hl = (if fst (last hl) = [] then map fst (butlast hl) else map fst hl)"

text \<open>
  The header of the grammar, in the spec's words: at least one line, each a line without a
  line boundary inside that has one of the three keys before its first colon, and each
  ended by a newline.
\<close>

definition key_value_line :: "string \<Rightarrow> bool" where
  "key_value_line l \<longleftrightarrow>
     plain_line l \<and>
     (case split_at_first_colon l of
        None \<Rightarrow> False
      | Some (k, v) \<Rightarrow> k \<in> set recognized_keys)"

definition grammar_header :: "(string \<times> string) list \<Rightarrow> bool" where
  "grammar_header hl \<longleftrightarrow> hl \<noteq> [] \<and> list_all (\<lambda>(l, nl). key_value_line l \<and> newline nl) hl"

section \<open>Auxiliary facts\<close>

subsection \<open>Lines and header lines\<close>

lemma is_linebreak_LF [simp]: "is_linebreak LF"
  by (simp add: is_linebreak_def)

lemma is_linebreak_CR [simp]: "is_linebreak CR"
  by (simp add: is_linebreak_def)

lemma is_linebreak_is_space: "is_linebreak c \<Longrightarrow> is_space c"
  by (auto simp: is_linebreak_def is_space_def)

lemma val_match_no_LF: "LF \<notin> set s \<Longrightarrow> val_match s = Some s"
proof -
  assume a: "LF \<notin> set s"
  then have "takeWhile (\<lambda>c. c \<noteq> LF) s = s" by (intro takeWhile_eq_all_conv[THEN iffD2]) auto
  moreover from a have "dropWhile (\<lambda>c. c \<noteq> LF) s = []" by (intro dropWhile_eq_Nil_conv[THEN iffD2]) auto
  ultimately show ?thesis by (simp add: val_match_def)
qed

lemma space_val_match_no_LF: "LF \<notin> set s \<Longrightarrow> space_val_match s = Some (dropWhile is_space s)"
  by (induction s) (auto simp: val_match_no_LF)

lemma line_template_match_no_colon: "CHR '':'' \<notin> set s \<Longrightarrow> line_template_match s = None"
  by (induction s) auto

lemma line_template_match_colon:
  "LF \<notin> set s \<Longrightarrow> CHR '':'' \<in> set s \<Longrightarrow>
   line_template_match s =
     Some (takeWhile (\<lambda>c. c \<noteq> CHR '':'') s,
           dropWhile is_space (tl (dropWhile (\<lambda>c. c \<noteq> CHR '':'') s)))"
  by (induction s) (auto simp: space_val_match_no_LF)

lemma splitlines_no_linebreak_all:
  "\<forall>l\<in>set (splitlines s). \<forall>c\<in>set l. \<not> is_linebreak c"
proof (induction s rule: splitlines.induct)
  case 1
  show ?case by simp
next
  case (2 c)
  show ?case by simp
next
  case (3 c c' cs)
  show ?case
  proof (cases "c = CR \<and> c' = LF")
    case True
    with 3 show ?thesis by simp
  next
    case nocrlf: False
    show ?thesis
    proof (cases "is_linebreak c")
      case True
      with nocrlf 3 show ?thesis by simp
    next
      case False
      with nocrlf 3 show ?thesis
        by (cases "splitlines (c' # cs)") (simp_all del: splitlines.simps add: splitlines.simps(3))
    qed
  qed
qed

lemma splitlines_no_linebreak:
  "l \<in> set (splitlines s) \<Longrightarrow> c \<in> set l \<Longrightarrow> \<not> is_linebreak c"
  using splitlines_no_linebreak_all by blast

lemma splitlines_no_LF: "l \<in> set (splitlines s) \<Longrightarrow> LF \<notin> set l"
  using splitlines_no_linebreak is_linebreak_LF by blast

lemma strip_dropWhile: "strip (dropWhile is_space s) = strip s"
  by (simp add: strip_def dropWhile_idem)

lemma header_line_entry:
  "header_line line sn =
     (case header_entry line of
        None \<Rightarrow> Inl (SyntaxError ''Unable to parse SaneSnippet header'')
      | Some (key, val) \<Rightarrow>
          if key = ''description'' then Inr (sn\<lparr>description := val\<rparr>)
          else if key = ''tabTrigger'' then Inr (sn\<lparr>tabTrigger := val\<rparr>)
          else if key = ''scope'' then Inr (sn\<lparr>scope := val\<rparr>)
          else Inl (SyntaxError (''Unexpected SaneSnippet property: \"'' @ key @ ''\"'')))"
  by (simp add: header_line_def header_entry_def Let_def split: option.split prod.split)

lemma header_entry_colon:
  assumes "LF \<notin> set line" and "CHR '':'' \<in> set line"
  shows "header_entry line = Some (strip (before_first_colon line), strip (after_first_colon line))"
  using assms
  by (simp add: header_entry_def line_template_match_colon parse_val_def strip_dropWhile
      before_first_colon_def after_first_colon_def)

lemma header_entry_no_colon: "CHR '':'' \<notin> set line \<Longrightarrow> header_entry line = None"
  by (simp add: header_entry_def line_template_match_no_colon)

lemma header_line_Inr_iff: "(\<exists>sn'. header_line line sn = Inr sn') \<longleftrightarrow> valid_header_line line"
  by (auto simp: header_line_entry valid_header_line_def recognized_keys_def
      split: option.splits)

lemma header_lines_Inr_iff:
  "(\<exists>sn'. header_lines lines sn = Inr sn') \<longleftrightarrow> (\<forall>l\<in>set lines. valid_header_line l)"
proof (induction lines arbitrary: sn)
  case Nil
  show ?case by simp
next
  case (Cons l lines)
  show ?case
  proof (cases "header_line l sn")
    case (Inl e)
    then have "\<not> valid_header_line l" using header_line_Inr_iff[of l sn] by simp
    with Inl show ?thesis by simp
  next
    case (Inr sn1)
    then have "valid_header_line l" using header_line_Inr_iff[of l sn] by blast
    with Inr Cons.IH[of sn1] show ?thesis by simp
  qed
qed

lemma header_lines_append:
  "header_lines (xs @ ys) sn =
     (case header_lines xs sn of Inl e \<Rightarrow> Inl e | Inr sn' \<Rightarrow> header_lines ys sn')"
  by (induction xs arbitrary: sn) (auto split: sum.splits)


lemma map_filter_snoc:
  "List.map_filter f (xs @ [x]) = List.map_filter f xs @ (case f x of None \<Rightarrow> [] | Some y \<Rightarrow> [y])"
  by (simp add: List.map_filter_def split: option.split)

lemma header_lines_fields:
  "header_lines lines sn = Inr sn' \<Longrightarrow>
     description sn' = last_value ''description'' (description sn) lines \<and>
     tabTrigger sn' = last_value ''tabTrigger'' (tabTrigger sn) lines \<and>
     scope sn' = last_value ''scope'' (scope sn) lines \<and>
     path sn' = path sn \<and> name sn' = name sn \<and> linesep sn' = linesep sn \<and> content sn' = content sn"
proof (induction lines arbitrary: sn' rule: rev_induct)
  case Nil
  then show ?case by (simp add: last_value_def List.map_filter_def)
next
  case (snoc x xs)
  from snoc.prems obtain sn1 where xs: "header_lines xs sn = Inr sn1"
    and x: "header_line x sn1 = Inr sn'"
    by (auto simp: header_lines_append split: sum.splits)
  note ih = snoc.IH[OF xs]
  from x obtain k v where e: "header_entry x = Some (k, v)"
    by (auto simp: header_line_entry split: option.splits)
  from x e ih show ?case
    by (auto simp: header_line_entry last_value_def map_filter_snoc split: if_splits)
qed

lemma header_lines_invalid:
  "l \<in> set lines \<Longrightarrow> \<not> valid_header_line l \<Longrightarrow> \<exists>e. header_lines lines sn = Inl e"
  using header_lines_Inr_iff[of lines sn] by (cases "header_lines lines sn") auto

lemma header_lines_takeWhile:
  assumes "[] \<in> set lines" and "\<forall>l\<in>set (takeWhile (\<lambda>l. l \<noteq> []) lines). valid_header_line l"
  shows "header_lines lines sn = Inl (SyntaxError ''Unable to parse SaneSnippet header'')"
proof -
  let ?pre = "takeWhile (\<lambda>l. l \<noteq> []) lines"
  from assms(1) obtain post where split: "lines = ?pre @ [] # post"
    by (metis (mono_tags, lifting) dropWhile_eq_Cons_conv dropWhile_eq_Nil_conv hd_dropWhile
        list.exhaust_sel takeWhile_dropWhile_id)
  from assms(2) obtain sn1 where "header_lines ?pre sn = Inr sn1"
    using header_lines_Inr_iff[of ?pre sn] by blast
  moreover have "header_line [] sn1 = Inl (SyntaxError ''Unable to parse SaneSnippet header'')"
    by (simp add: header_line_def)
  ultimately have "header_lines (?pre @ [] # post) sn = Inl (SyntaxError ''Unable to parse SaneSnippet header'')"
    by (simp add: header_lines_append)
  with split show ?thesis by simp
qed

subsection \<open>The template matcher against the grammar\<close>

lemma first_some_sound: "first_some f xs = Some y \<Longrightarrow> \<exists>x\<in>set xs. f x = Some y"
  by (induction xs) (auto split: option.splits)

lemma first_some_None_iff: "first_some f xs = None \<longleftrightarrow> (\<forall>x\<in>set xs. f x = None)"
  by (induction xs) (auto split: option.splits)

lemma nl_alternatives_sound:
  assumes "(nl, r) \<in> set (nl_alternatives s)"
  shows "s = nl @ r \<and> newline nl"
proof (cases s)
  case Nil
  with assms show ?thesis by (simp add: nl_alternatives_def)
next
  case (Cons x t)
  with assms show ?thesis
    by (cases t) (auto simp: nl_alternatives_def newline_def split: if_splits)
qed

lemma nl_alternatives_other:
  "x \<noteq> CR \<Longrightarrow> x \<noteq> LF \<Longrightarrow> nl_alternatives (x # r) = []"
  by (simp add: nl_alternatives_def)

lemma nl_alternatives_newline:
  "newline nl \<Longrightarrow> \<exists>nl' r'. hd (nl_alternatives (nl @ r)) = (nl', r') \<and> nl_alternatives (nl @ r) \<noteq> []
     \<and> nl' @ r' = nl @ r \<and> newline nl' \<and> (nl' = [CR] \<longrightarrow> \<not> prefix [LF] r')"
  by (cases r) (auto simp: nl_alternatives_def newline_def)

lemma nl_alternatives_mem:
  assumes "newline nl"
  shows "(nl, r) \<in> set (nl_alternatives (nl @ r))"
proof -
  from assms consider "nl = [LF]" | "nl = [CR, LF]" | "nl = [CR]" by (auto simp: newline_def)
  then show ?thesis
  proof cases
    case 1
    then show ?thesis by (simp add: nl_alternatives_def)
  next
    case 2
    then show ?thesis by (simp add: nl_alternatives_def)
  next
    case 3
    then show ?thesis by (cases r) (simp_all add: nl_alternatives_def)
  qed
qed

lemma closing_match_sound:
  assumes "closing_match s = Some c"
  shows "\<exists>nl. s = ''---'' @ nl @ c \<and> newline nl \<and> (nl = [CR] \<longrightarrow> \<not> prefix [LF] c)"
proof -
  from assms have p: "prefix ''---'' s" by (simp add: closing_match_def split: if_splits)
  then obtain t where s: "s = ''---'' @ t" by (auto simp: prefix_def)
  from assms s obtain nl where "nl_alternatives t \<noteq> []" and hd: "hd (nl_alternatives t) = (nl, c)"
    by (auto simp: closing_match_def split: list.splits)
  then have "(nl, c) \<in> set (nl_alternatives t)" by (metis hd_in_set)
  from nl_alternatives_sound[OF this] have t: "t = nl @ c" and n: "newline nl" by simp_all
  have "nl = [CR] \<longrightarrow> \<not> prefix [LF] c"
    using hd t by (cases c) (auto simp: nl_alternatives_def split: if_splits)
  with s t n show ?thesis by blast
qed

lemma closing_match_complete:
  assumes "newline nl"
  shows "\<exists>c'. closing_match (''---'' @ nl @ c) = Some c'"
  using nl_alternatives_newline[OF assms, of c]
  by (cases "nl_alternatives (nl @ c)") (auto simp: closing_match_def)

lemma closing_match_exact:
  assumes "newline nl" and "nl = [CR] \<longrightarrow> \<not> prefix [LF] c"
  shows "closing_match (''---'' @ nl @ c) = Some c"
  using assms by (cases c) (auto simp: closing_match_def nl_alternatives_def newline_def)

lemma linesep_match_sound:
  assumes "linesep_match s = Some (ls, c)"
  shows "\<exists>nl. s = ls @ ''---'' @ nl @ c \<and> newline ls \<and> newline nl \<and> (nl = [CR] \<longrightarrow> \<not> prefix [LF] c)"
proof -
  from assms obtain x where x: "x \<in> set (nl_alternatives s)"
    and fx: "(case x of (ls, r) \<Rightarrow> map_option (Pair ls) (closing_match r)) = Some (ls, c)"
    unfolding linesep_match_def by (blast dest: first_some_sound)
  obtain ls' r where xp: "x = (ls', r)" by (cases x)
  with fx have ls': "ls' = ls" and cm: "closing_match r = Some c" by auto
  from x xp ls' nl_alternatives_sound have s: "s = ls @ r" and n: "newline ls" by blast+
  from closing_match_sound[OF cm] s n show ?thesis by auto
qed

lemma linesep_match_complete:
  assumes "newline ls" and "newline nl"
  shows "\<exists>c'. linesep_match (ls @ ''---'' @ nl @ c) = Some (ls, c')"
proof -
  from closing_match_complete[OF assms(2), of c] obtain c' where
    c: "closing_match (''---'' @ nl @ c) = Some c'" by blast
  with assms(1) have "linesep_match (ls @ ''---'' @ nl @ c) = Some (ls, c')"
    by (auto simp: linesep_match_def nl_alternatives_def newline_def)
  then show ?thesis by blast
qed

lemma linesep_match_exact:
  assumes "newline ls" and "newline nl" and "nl = [CR] \<longrightarrow> \<not> prefix [LF] c"
  shows "linesep_match (ls @ ''---'' @ nl @ c) = Some (ls, c)"
proof -
  from closing_match_exact[OF assms(2,3)] have
    c: "closing_match (''---'' @ nl @ c) = Some c" .
  with assms(1) show ?thesis
    by (auto simp: linesep_match_def nl_alternatives_def newline_def)
qed

lemma linesep_match_other:
  "x \<noteq> CR \<Longrightarrow> x \<noteq> LF \<Longrightarrow> linesep_match (x # r) = None"
  by (simp add: linesep_match_def nl_alternatives_other)

lemma header_match_sound:
  "header_match s = Some (h, ls, c) \<Longrightarrow> \<exists>t. s = h @ t \<and> linesep_match t = Some (ls, c)"
proof (induction s arbitrary: h)
  case Nil
  then show ?case by simp
next
  case (Cons x r)
  show ?case
  proof (cases "linesep_match (x # r)")
    case None
    with Cons.prems obtain h' where h: "h = x # h'" and "header_match r = Some (h', ls, c)"
      by auto
    from Cons.IH[OF this(2)] h show ?thesis by auto
  next
    case (Some a)
    with Cons.prems show ?thesis by (cases a) auto
  qed
qed

lemma header_match_complete:
  "linesep_match t \<noteq> None \<Longrightarrow> header_match (h @ t) \<noteq> None"
proof (induction h)
  case Nil
  then show ?case by (cases t) (auto simp: linesep_match_def nl_alternatives_def)
next
  case (Cons x h)
  then show ?case by (cases "linesep_match (x # h @ t)") auto
qed

lemma template_match_sound:
  assumes "template_match text = Some (h, ls, c)"
  shows "\<exists>nl1 nl2. text = ''---'' @ nl1 @ h @ ls @ ''---'' @ nl2 @ c \<and> newline nl1 \<and> newline ls
           \<and> newline nl2 \<and> (nl2 = [CR] \<longrightarrow> \<not> prefix [LF] c)"
proof -
  from assms have "prefix ''---'' text" by (simp add: template_match_def split: if_splits)
  then obtain t where tx: "text = ''---'' @ t" by (auto simp: prefix_def)
  with assms obtain x where x: "x \<in> set (nl_alternatives t)"
    and fx: "(case x of (nl, r) \<Rightarrow> header_match r) = Some (h, ls, c)"
    by (auto simp: template_match_def dest: first_some_sound)
  obtain nl1 r where xp: "x = (nl1, r)" by (cases x)
  from x xp nl_alternatives_sound have t: "t = nl1 @ r" and n1: "newline nl1" by blast+
  from fx xp have "header_match r = Some (h, ls, c)" by simp
  from header_match_sound[OF this] obtain u where r: "r = h @ u" and "linesep_match u = Some (ls, c)"
    by blast
  from linesep_match_sound[OF this(2)] tx t r n1 show ?thesis by auto
qed

lemma template_match_complete:
  assumes "delimited text"
  shows "template_match text \<noteq> None"
proof -
  from assms obtain nl1 h ls nl2 c where tx: "text = ''---'' @ nl1 @ h @ ls @ ''---'' @ nl2 @ c"
    and n: "newline nl1" "newline ls" "newline nl2"
    by (auto simp: delimited_def)
  let ?r = "h @ ls @ ''---'' @ nl2 @ c"
  from linesep_match_complete[OF n(2,3), of c] have "linesep_match (ls @ ''---'' @ nl2 @ c) \<noteq> None"
    by auto
  then have hm: "header_match ?r \<noteq> None" by (rule header_match_complete)
  have "(nl1, ?r) \<in> set (nl_alternatives (nl1 @ ?r))"
    using n(1) by (rule nl_alternatives_mem)
  with hm have "first_some (\<lambda>(nl, r). header_match r) (nl_alternatives (nl1 @ ?r)) \<noteq> None"
    unfolding first_some_None_iff by fastforce
  moreover have "prefix ''---'' text" and "drop 3 text = nl1 @ ?r" using tx by simp_all
  ultimately show ?thesis by (simp add: template_match_def)
qed

lemma template_match_iff_delimited: "template_match text \<noteq> None \<longleftrightarrow> delimited text"
proof
  assume "template_match text \<noteq> None"
  then obtain h ls c where "template_match text = Some (h, ls, c)" by auto
  from template_match_sound[OF this] show "delimited text" unfolding delimited_def by blast
qed (rule template_match_complete)

subsection \<open>The template matcher on well-formed headers\<close>

lemma valid_header_line_colon: "valid_header_line l \<Longrightarrow> CHR '':'' \<in> set l"
  using header_entry_no_colon[of l] by (cases "CHR '':'' \<in> set l") (simp_all add: valid_header_line_def)

lemma plain_line_Cons: "plain_line (x # l) \<longleftrightarrow> \<not> is_linebreak x \<and> plain_line l"
  by (simp add: plain_line_def)

lemma plain_not_CR_LF: "\<not> is_linebreak x \<Longrightarrow> x \<noteq> CR \<and> x \<noteq> LF"
  by (auto simp: is_linebreak_def)

lemma header_match_skip_plain:
  "plain_line l \<Longrightarrow> header_match (l @ u) = map_option (\<lambda>(h, ls, c). (l @ h, ls, c)) (header_match u)"
proof (induction l)
  case Nil
  show ?case by (simp add: option.map_ident)
next
  case (Cons x l)
  then have "linesep_match (x # l @ u) = None"
    by (simp add: plain_line_Cons linesep_match_other plain_not_CR_LF)
  with Cons show ?case
    by (simp add: plain_line_Cons option.map_comp comp_def case_prod_unfold)
qed

lemma closing_match_header_line:
  assumes "CHR '':'' \<in> set l" and "plain_line l" and "newline nl"
  shows "closing_match (l @ nl @ z) = None"
proof (cases "prefix ''---'' (l @ nl @ z)")
  case False
  then show ?thesis by (simp add: closing_match_def)
next
  case True
  from assms(3) obtain y nl' where nl: "nl = y # nl'" and y: "y = CR \<or> y = LF"
    by (auto simp: newline_def)
  from True assms(1) nl y obtain x l' where l: "l = ''---'' @ x # l'"
    by (cases l; cases "tl l"; cases "tl (tl l)"; cases "tl (tl (tl l))") auto
  with assms(2) have "x \<noteq> CR \<and> x \<noteq> LF"
    by (simp add: plain_line_def plain_not_CR_LF)
  with l show ?thesis by (simp add: closing_match_def nl_alternatives_def)
qed

lemma closing_match_LF: "closing_match (LF # w) = None"
  by (simp add: closing_match_def)

lemma header_match_skip_newline:
  assumes "newline nl" and "closing_match w = None" and "nl = [CR] \<longrightarrow> \<not> prefix [LF] w"
  shows "header_match (nl @ w) = map_option (\<lambda>(h, ls, c). (nl @ h, ls, c)) (header_match w)"
proof -
  from assms(1) consider "nl = [LF]" | "nl = [CR, LF]" | "nl = [CR]" by (auto simp: newline_def)
  then show ?thesis
  proof cases
    case 1
    with assms(2) show ?thesis by (simp add: linesep_match_def nl_alternatives_def)
  next
    case 2
    with assms(2) show ?thesis
      by (simp add: linesep_match_def nl_alternatives_def closing_match_LF option.map_comp
          comp_def case_prod_unfold)
  next
    case 3
    with assms(2,3) show ?thesis
      by (cases w) (simp_all add: linesep_match_def nl_alternatives_def)
  qed
qed

lemma header_block_Cons: "header_block ((l, nl) # hl) = l @ nl @ header_block hl"
  by (simp add: header_block_def)

lemma header_of_single: "header_of [(l, nl)] = l"
  by (simp add: header_of_def header_block_def)

lemma header_of_Cons: "hl \<noteq> [] \<Longrightarrow> header_of ((l, nl) # hl) = l @ nl @ header_of hl"
  by (simp add: header_of_def header_block_Cons)

lemma nl_alternatives_newline_other:
  assumes "newline nl" and "x \<noteq> CR" and "x \<noteq> LF"
  shows "\<exists>rest. nl_alternatives (nl @ x # r) = (nl, x # r) # rest"
proof -
  from assms(1) consider "nl = [LF]" | "nl = [CR, LF]" | "nl = [CR]" by (auto simp: newline_def)
  then show ?thesis using assms(2,3) by cases (simp_all add: nl_alternatives_def)
qed

lemma header_match_at_linesep:
  assumes "newline ls" and "closing_match (''---'' @ r) = Some c'"
  shows "header_match (ls @ ''---'' @ r) = Some ([], ls, c')"
proof -
  obtain rest where "nl_alternatives (ls @ CHR ''-'' # (''--'' @ r)) = (ls, CHR ''-'' # (''--'' @ r)) # rest"
    using nl_alternatives_newline_other[OF assms(1), of "CHR ''-''" "''--'' @ r"] by auto
  with assms(2) have "linesep_match (ls @ ''---'' @ r) = Some (ls, c')"
    by (simp add: linesep_match_def)
  moreover from assms(1) obtain y t where "ls @ ''---'' @ r = y # t" by (cases ls) (auto simp: newline_def)
  ultimately show ?thesis by simp
qed


lemma wellformed_header_Cons:
  "wellformed_header ((l, nl) # hl) \<longleftrightarrow>
     valid_header_line l \<and> plain_line l \<and> newline nl \<and> (hl = [] \<or> wellformed_header hl)"
  by (auto simp: wellformed_header_def)

lemma wellformed_header_starts:
  assumes "wellformed_header hl"
  shows "\<exists>x r. header_block hl @ z = x # r \<and> x \<noteq> CR \<and> x \<noteq> LF"
proof -
  from assms obtain l nl hl' where hl: "hl = (l, nl) # hl'" by (cases hl) (auto simp: wellformed_header_def)
  with assms have v: "valid_header_line l" and p: "plain_line l" by (simp_all add: wellformed_header_Cons)
  from v have "l \<noteq> []" using valid_header_line_colon by fastforce
  then obtain x l' where l: "l = x # l'" by (cases l) auto
  with p have "x \<noteq> CR \<and> x \<noteq> LF" by (simp add: plain_line_Cons plain_not_CR_LF)
  with hl l show ?thesis by (simp add: header_block_Cons)
qed

lemma closing_match_wellformed:
  assumes "wellformed_header hl"
  shows "closing_match (header_block hl @ z) = None"
proof -
  from assms obtain l nl hl' where hl: "hl = (l, nl) # hl'" by (cases hl) (auto simp: wellformed_header_def)
  with assms have "CHR '':'' \<in> set l" "plain_line l" "newline nl"
    by (simp_all add: wellformed_header_Cons valid_header_line_colon)
  from closing_match_header_line[OF this, of "header_block hl' @ z"] hl
  show ?thesis by (simp add: header_block_Cons)
qed

lemma header_match_block:
  assumes "wellformed_header hl" and "closing_match (''---'' @ r) = Some c'"
  shows "header_match (header_block hl @ ''---'' @ r) = Some (header_of hl, snd (last hl), c')"
  using assms(1)
proof (induction hl)
  case Nil
  then show ?case by (simp add: wellformed_header_def)
next
  case (Cons a hl)
  obtain l nl where a: "a = (l, nl)" by (cases a)
  with Cons.prems have p: "plain_line l" and n: "newline nl"
    and rest: "hl = [] \<or> wellformed_header hl"
    by (simp_all add: wellformed_header_Cons)
  show ?case
  proof (cases "hl = []")
    case True
    with a p header_match_at_linesep[OF n assms(2)] show ?thesis
      by (simp add: header_block_Cons header_of_single header_match_skip_plain header_block_def)
  next
    case False
    with rest have wf: "wellformed_header hl" by simp
    let ?w = "header_block hl @ ''---'' @ r"
    from wellformed_header_starts[OF wf, of "''---'' @ r"] have nolf: "\<not> prefix [LF] ?w"
      by auto
    have cm: "closing_match ?w = None" using wf by (rule closing_match_wellformed)
    have "header_match (l @ nl @ ?w) = map_option (\<lambda>(h, ls, c). (l @ h, ls, c)) (header_match (nl @ ?w))"
      using p by (rule header_match_skip_plain)
    also have "header_match (nl @ ?w) = map_option (\<lambda>(h, ls, c). (nl @ h, ls, c)) (header_match ?w)"
      using n cm nolf by (intro header_match_skip_newline) simp_all
    also have "header_match ?w = Some (header_of hl, snd (last hl), c')"
      using wf by (rule Cons.IH)
    finally show ?thesis using a False by (simp add: header_block_Cons header_of_Cons)
  qed
qed

lemma template_match_block:
  assumes "wellformed_header hl" and "newline nl1" and "closing_match (''---'' @ r) = Some c'"
  shows "template_match (''---'' @ nl1 @ header_block hl @ ''---'' @ r)
       = Some (header_of hl, snd (last hl), c')"
proof -
  from wellformed_header_starts[OF assms(1), of "''---'' @ r"] obtain x t where
    w: "header_block hl @ ''---'' @ r = x # t" and x: "x \<noteq> CR" "x \<noteq> LF" by blast
  obtain rest where "nl_alternatives (nl1 @ x # t) = (nl1, x # t) # rest"
    using nl_alternatives_newline_other[OF assms(2) x] by auto
  with w have "nl_alternatives (nl1 @ header_block hl @ ''---'' @ r)
      = (nl1, header_block hl @ ''---'' @ r) # rest" by simp
  with header_match_block[OF assms(1,3)] show ?thesis
    by (simp add: template_match_def)
qed

lemma splitlines_plain_newline:
  assumes "plain_line l" and "newline nl" and "nl = [CR] \<longrightarrow> \<not> prefix [LF] rest"
  shows "splitlines (l @ nl @ rest) = l # splitlines rest"
  using assms(1)
proof (induction l)
  case Nil
  from assms(2) consider "nl = [LF]" | "nl = [CR, LF]" | "nl = [CR]" by (auto simp: newline_def)
  then show ?case
  proof cases
    case 1
    then show ?thesis by (cases rest) simp_all
  next
    case 2
    then show ?thesis by simp
  next
    case 3
    with assms(3) show ?thesis by (cases rest) simp_all
  qed
next
  case (Cons x l)
  then have x: "\<not> is_linebreak x" and p: "plain_line l" by (simp_all add: plain_line_Cons)
  from assms(2) obtain y t where yt: "l @ nl @ rest = y # t"
    by (cases l) (auto simp: newline_def)
  from x have "x \<noteq> CR" using plain_not_CR_LF by blast
  with x yt Cons.IH[OF p] show ?case by simp
qed

lemma splitlines_plain:
  assumes "plain_line l" and "l \<noteq> []"
  shows "splitlines l = [l]"
  using assms
proof (induction l)
  case Nil
  then show ?case by simp
next
  case (Cons x l)
  then have x: "\<not> is_linebreak x" and p: "plain_line l" by (simp_all add: plain_line_Cons)
  from x have xcr: "x \<noteq> CR" using plain_not_CR_LF by blast
  show ?case
  proof (cases l)
    case Nil
    with x show ?thesis by simp
  next
    case (Cons y t)
    with Cons.IH p have "splitlines (y # t) = [y # t]" by simp
    with x xcr Cons show ?thesis by simp
  qed
qed

lemma splitlines_header_of:
  assumes "wellformed_header hl"
  shows "splitlines (header_of hl) = map fst hl"
  using assms
proof (induction hl)
  case Nil
  then show ?case by (simp add: wellformed_header_def)
next
  case (Cons a hl)
  obtain l nl where a: "a = (l, nl)" by (cases a)
  with Cons.prems have v: "valid_header_line l" and p: "plain_line l" and n: "newline nl"
    and rest: "hl = [] \<or> wellformed_header hl"
    by (simp_all add: wellformed_header_Cons)
  from v have ne: "l \<noteq> []" using valid_header_line_colon by fastforce
  show ?case
  proof (cases "hl = []")
    case True
    with a p ne show ?thesis by (simp add: header_of_single splitlines_plain)
  next
    case False
    with rest have wf: "wellformed_header hl" by simp
    obtain l2 nl2 hl2 where hl: "hl = (l2, nl2) # hl2" using False by (cases hl) auto
    with wf have "valid_header_line l2" and p2: "plain_line l2" by (simp_all add: wellformed_header_Cons)
    then obtain x l2' where l2: "l2 = x # l2'" using valid_header_line_colon by (cases l2) fastforce+
    with p2 have "x \<noteq> LF" by (simp add: plain_line_Cons plain_not_CR_LF)
    with hl l2 have "\<not> prefix [LF] (header_of hl)"
      by (cases hl2) (simp_all add: header_of_def header_block_Cons header_block_def)
    then have "splitlines (l @ nl @ header_of hl) = l # splitlines (header_of hl)"
      using p n by (intro splitlines_plain_newline) simp_all
    with a False Cons.IH[OF wf] show ?thesis by (simp add: header_of_Cons)
  qed
qed

lemma wellformed_header_valid:
  "wellformed_header hl \<Longrightarrow> l \<in> set (map fst hl) \<Longrightarrow> valid_header_line l"
  by (auto simp: wellformed_header_def list_all_iff)

lemma parse_snippet_wellformed:
  assumes "wellformed_header hl" and "newline nl1" and "newline nl2"
    and "nl2 = [CR] \<longrightarrow> \<not> prefix [LF] c"
  shows "parse_snippet p n (''---'' @ nl1 @ header_block hl @ ''---'' @ nl2 @ c)
       = header_lines (map fst hl)
           \<lparr>path = p, name = n, description = n, tabTrigger = [], scope = [],
            linesep = snd (last hl), content = c\<rparr>"
proof -
  have "closing_match (''---'' @ nl2 @ c) = Some c"
    using assms(3,4) by (rule closing_match_exact)
  from template_match_block[OF assms(1,2) this]
  show ?thesis by (simp add: parse_snippet_def splitlines_header_of[OF assms(1)])
qed

lemma parse_snippet_wellformed_succeeds:
  assumes "wellformed_header hl" and "newline nl1" and "newline nl2"
  shows "\<exists>sn. parse_snippet p n (''---'' @ nl1 @ header_block hl @ ''---'' @ nl2 @ c) = Inr sn
           \<and> linesep sn = snd (last hl)"
proof -
  from closing_match_complete[OF assms(3), of c] obtain c' where
    cm: "closing_match (''---'' @ nl2 @ c) = Some c'" by blast
  let ?sn0 = "\<lparr>path = p, name = n, description = n, tabTrigger = [], scope = [],
            linesep = snd (last hl), content = c'\<rparr>"
  have ps: "parse_snippet p n (''---'' @ nl1 @ header_block hl @ ''---'' @ nl2 @ c)
      = header_lines (map fst hl) ?sn0"
    using template_match_block[OF assms(1,2) cm]
    by (simp add: parse_snippet_def splitlines_header_of[OF assms(1)])
  have "\<forall>l\<in>set (map fst hl). valid_header_line l"
    using wellformed_header_valid[OF assms(1)] by blast
  then obtain sn where sn: "header_lines (map fst hl) ?sn0 = Inr sn"
    using header_lines_Inr_iff[of "map fst hl" ?sn0] by blast
  from header_lines_fields[OF sn] have "linesep sn = snd (last hl)" by simp
  with ps sn show ?thesis by simp
qed

subsection \<open>Header blocks with empty and invalid lines\<close>

lemma closing_match_plain_line:
  assumes "plain_line l" and "l \<noteq> ''---''" and "newline nl"
  shows "closing_match (l @ nl @ z) = None"
proof (cases "prefix ''---'' (l @ nl @ z)")
  case False
  then show ?thesis by (simp add: closing_match_def)
next
  case True
  from assms(3) obtain y nl' where nl: "nl = y # nl'" and y: "y = CR \<or> y = LF"
    by (auto simp: newline_def)
  from True assms(2) nl y obtain x l' where l: "l = ''---'' @ x # l'"
    by (cases l; cases "tl l"; cases "tl (tl l)"; cases "tl (tl (tl l))") auto
  with assms(1) have "x \<noteq> CR \<and> x \<noteq> LF"
    by (simp add: plain_line_def plain_not_CR_LF)
  with l show ?thesis by (simp add: closing_match_def nl_alternatives_def)
qed

lemma nl_alternatives_first:
  assumes "newline nl" and "nl = [CR] \<longrightarrow> \<not> prefix [LF] w"
  shows "\<exists>rest. nl_alternatives (nl @ w) = (nl, w) # rest"
proof -
  from assms(1) consider "nl = [LF]" | "nl = [CR, LF]" | "nl = [CR]" by (auto simp: newline_def)
  then show ?thesis
  proof cases
    case 1
    then show ?thesis by (simp add: nl_alternatives_def)
  next
    case 2
    then show ?thesis by (simp add: nl_alternatives_def)
  next
    case 3
    with assms(2) show ?thesis by (cases w) (simp_all add: nl_alternatives_def)
  qed
qed

lemma block_ok_starts:
  assumes "block_ok prev hl" and "hl \<noteq> []" and "prev = [CR]"
  shows "\<not> prefix [LF] (header_block hl @ z)"
proof -
  from assms(2) obtain l nl hl' where hl: "hl = (l, nl) # hl'" by (cases hl) auto
  with assms(1) have p: "plain_line l" and n: "newline nl"
    and adj: "\<not> (prev = [CR] \<and> l = [] \<and> prefix [LF] nl)" by simp_all
  show ?thesis
  proof (cases l)
    case Nil
    with adj assms(3) have "\<not> prefix [LF] nl" by simp
    with n Nil hl show ?thesis by (auto simp: newline_def header_block_Cons)
  next
    case (Cons x l')
    with p have "x \<noteq> LF" by (simp add: plain_line_Cons plain_not_CR_LF)
    with Cons hl show ?thesis by (simp add: header_block_Cons)
  qed
qed

lemma block_ok_closing:
  assumes "block_ok prev hl" and "hl \<noteq> []"
  shows "closing_match (header_block hl @ z) = None"
proof -
  from assms(2) obtain l nl hl' where hl: "hl = (l, nl) # hl'" by (cases hl) auto
  with assms(1) have "plain_line l" "l \<noteq> ''---''" "newline nl" by simp_all
  from closing_match_plain_line[OF this, of "header_block hl' @ z"] hl
  show ?thesis by (simp add: header_block_Cons)
qed

lemma header_match_block_ok:
  assumes "closing_match (''---'' @ r) = Some c'"
  shows "block_ok prev hl \<Longrightarrow> hl \<noteq> [] \<Longrightarrow>
         header_match (header_block hl @ ''---'' @ r) = Some (header_of hl, snd (last hl), c')"
proof (induction hl arbitrary: prev)
  case Nil
  then show ?case by simp
next
  case (Cons a hl)
  obtain l nl where a: "a = (l, nl)" by (cases a)
  with Cons.prems have p: "plain_line l" and n: "newline nl" and rest: "block_ok nl hl"
    by simp_all
  show ?case
  proof (cases "hl = []")
    case True
    with a p header_match_at_linesep[OF n assms] show ?thesis
      by (simp add: header_block_Cons header_of_single header_match_skip_plain header_block_def)
  next
    case False
    let ?w = "header_block hl @ ''---'' @ r"
    have nolf: "nl = [CR] \<longrightarrow> \<not> prefix [LF] ?w"
      using block_ok_starts[OF rest False] by blast
    have cm: "closing_match ?w = None" using rest False by (rule block_ok_closing)
    have "header_match (l @ nl @ ?w) = map_option (\<lambda>(h, ls, c). (l @ h, ls, c)) (header_match (nl @ ?w))"
      using p by (rule header_match_skip_plain)
    also have "header_match (nl @ ?w) = map_option (\<lambda>(h, ls, c). (nl @ h, ls, c)) (header_match ?w)"
      using n cm nolf by (rule header_match_skip_newline)
    also have "header_match ?w = Some (header_of hl, snd (last hl), c')"
      using rest False by (rule Cons.IH)
    finally show ?thesis using a False by (simp add: header_block_Cons header_of_Cons)
  qed
qed

lemma template_match_block_ok:
  assumes "block_ok nl1 hl" and "hl \<noteq> []" and "newline nl1"
    and "closing_match (''---'' @ r) = Some c'"
  shows "template_match (''---'' @ nl1 @ header_block hl @ ''---'' @ r)
       = Some (header_of hl, snd (last hl), c')"
proof -
  let ?w = "header_block hl @ ''---'' @ r"
  have "nl1 = [CR] \<longrightarrow> \<not> prefix [LF] ?w" using block_ok_starts[OF assms(1,2)] by blast
  from nl_alternatives_first[OF assms(3) this] obtain rest where
    "nl_alternatives (nl1 @ ?w) = (nl1, ?w) # rest" by blast
  with header_match_block_ok[OF assms(4,1,2)] show ?thesis
    by (simp add: template_match_def)
qed

lemma splitlines_header_of_ok:
  "block_ok prev hl \<Longrightarrow> hl \<noteq> [] \<Longrightarrow> splitlines (header_of hl) = read_lines hl"
proof (induction hl arbitrary: prev)
  case Nil
  then show ?case by simp
next
  case (Cons a hl)
  obtain l nl where a: "a = (l, nl)" by (cases a)
  with Cons.prems have p: "plain_line l" and n: "newline nl" and rest: "block_ok nl hl"
    by simp_all
  show ?case
  proof (cases "hl = []")
    case True
    with a p show ?thesis
      by (cases "l = []") (simp_all add: header_of_single splitlines_plain read_lines_def)
  next
    case False
    have "nl = [CR] \<longrightarrow> \<not> prefix [LF] (header_of hl)"
    proof
      assume cr: "nl = [CR]"
      from False obtain l2 nl2 hl2 where hl: "hl = (l2, nl2) # hl2" by (cases hl) auto
      with rest have p2: "plain_line l2" and n2: "newline nl2"
        and adj: "\<not> (nl = [CR] \<and> l2 = [] \<and> prefix [LF] nl2)" by simp_all
      show "\<not> prefix [LF] (header_of hl)"
      proof (cases l2)
        case Nil
        with adj cr have "\<not> prefix [LF] nl2" by simp
        with n2 Nil hl show ?thesis
          by (cases hl2) (auto simp: newline_def header_of_def header_block_Cons header_block_def)
      next
        case (Cons x l')
        with p2 have "x \<noteq> LF" by (simp add: plain_line_Cons plain_not_CR_LF)
        with Cons hl show ?thesis
          by (cases hl2) (simp_all add: header_of_def header_block_Cons header_block_def)
      qed
    qed
    then have "splitlines (l @ nl @ header_of hl) = l # splitlines (header_of hl)"
      using p n by (intro splitlines_plain_newline) simp_all
    with a False Cons.IH[OF rest False] show ?thesis
      by (simp add: header_of_Cons read_lines_def)
  qed
qed

lemma closing_match_value:
  assumes "newline nl"
  shows "closing_match (''---'' @ nl @ c) = Some (if nl = [CR] \<and> prefix [LF] c then tl c else c)"
proof -
  from assms consider "nl = [LF]" | "nl = [CR, LF]" | "nl = [CR]" by (auto simp: newline_def)
  then show ?thesis
  proof cases
    case 1
    then show ?thesis by (simp add: closing_match_def nl_alternatives_def)
  next
    case 2
    then show ?thesis by (simp add: closing_match_def nl_alternatives_def)
  next
    case 3
    then show ?thesis by (cases c) (simp_all add: closing_match_def nl_alternatives_def)
  qed
qed

lemma parse_snippet_block:
  assumes "block_ok nl1 hl" and "hl \<noteq> []" and "newline nl1" and "newline nl2"
  shows "parse_snippet p n (''---'' @ nl1 @ header_block hl @ ''---'' @ nl2 @ c)
       = header_lines (read_lines hl)
           \<lparr>path = p, name = n, description = n, tabTrigger = [], scope = [],
            linesep = snd (last hl),
            content = (if nl2 = [CR] \<and> prefix [LF] c then tl c else c)\<rparr>"
  using template_match_block_ok[OF assms(1,2,3) closing_match_value[OF assms(4), of c]]
  by (simp add: parse_snippet_def splitlines_header_of_ok[OF assms(1,2)])

lemma wellformed_block_ok:
  "wellformed_header hl \<Longrightarrow> block_ok prev hl"
proof (induction hl arbitrary: prev)
  case Nil
  then show ?case by simp
next
  case (Cons a hl)
  obtain l nl where a: "a = (l, nl)" by (cases a)
  with Cons.prems have v: "valid_header_line l" and p: "plain_line l" and n: "newline nl"
    and rest: "hl = [] \<or> wellformed_header hl" by (simp_all add: wellformed_header_Cons)
  from v have c: "CHR '':'' \<in> set l" by (rule valid_header_line_colon)
  then have "l \<noteq> ''---''" and "l \<noteq> []" by auto
  moreover have "block_ok nl hl" using rest Cons.IH by (cases "hl = []") auto
  ultimately show ?case using a p n by simp
qed

subsection \<open>Lines read by their first colon, and empty lines\<close>

lemma header_entry_split:
  "LF \<notin> set line \<Longrightarrow> header_entry line = split_at_first_colon line"
  by (simp add: split_at_first_colon_def header_entry_colon header_entry_no_colon)

lemma header_lines_by_colon:
  "(\<forall>l\<in>set lines. LF \<notin> set l) \<Longrightarrow> header_lines lines sn = read_lines_by_colon lines sn"
proof (induction lines arbitrary: sn)
  case Nil
  show ?case by simp
next
  case (Cons l lines)
  then have l: "header_entry l = split_at_first_colon l" by (simp add: header_entry_split)
  from Cons have ih: "\<And>sn. header_lines lines sn = read_lines_by_colon lines sn" by simp
  show ?case
    by (simp add: header_line_entry l ih split: option.split)
qed

lemma plain_line_no_LF: "plain_line l \<Longrightarrow> LF \<notin> set l"
  by (auto simp: plain_line_def list_all_iff is_linebreak_def)

lemma block_ok_plain: "block_ok prev hl \<Longrightarrow> \<forall>l\<in>set (map fst hl). plain_line l"
  by (induction prev hl rule: block_ok.induct) auto

lemma read_lines_subset: "hl \<noteq> [] \<Longrightarrow> set (read_lines hl) \<subseteq> set (map fst hl)"
  by (auto simp: read_lines_def dest: in_set_butlastD)

lemma header_lines_first_empty:
  assumes "[] \<in> set lines"
  shows "\<exists>e. header_lines lines sn = Inl e"
proof -
  have "\<not> valid_header_line []" by (simp add: valid_header_line_def header_entry_def)
  with assms header_lines_invalid[of "[]" lines sn] show ?thesis by blast
qed

lemma read_lines_butlast:
  "hl \<noteq> [] \<Longrightarrow> l \<in> set (map fst (butlast hl)) \<Longrightarrow> l \<in> set (read_lines hl)"
  by (auto simp: read_lines_def dest: in_set_butlastD)

lemma takeWhile_read_lines:
  assumes "[] \<in> set (map fst (butlast hl))"
  shows "takeWhile (\<lambda>l. l \<noteq> []) (read_lines hl) = takeWhile (\<lambda>l. l \<noteq> []) (map fst (butlast hl))"
proof (cases "fst (last hl) = []")
  case True
  then show ?thesis by (simp add: read_lines_def)
next
  case False
  from assms have ne: "hl \<noteq> []" by auto
  then have "map fst hl = map fst (butlast hl) @ [fst (last hl)]"
    by (metis append_butlast_last_id list.simps(8,9) map_append)
  moreover from assms obtain x where "x \<in> set (map fst (butlast hl))" and "\<not> x \<noteq> []" by blast
  ultimately show ?thesis using False
    by (simp add: read_lines_def takeWhile_append1)
qed

subsection \<open>Documents of the grammar\<close>

lemma header_line_error:
  "header_line l sn = Inl e \<Longrightarrow> e \<noteq> SyntaxError ''Unable to parse SaneSnippet''"
  by (auto simp: header_line_def Let_def split: option.splits if_splits)

lemma header_lines_error:
  "header_lines lines sn = Inl e \<Longrightarrow> e \<noteq> SyntaxError ''Unable to parse SaneSnippet''"
proof (induction lines arbitrary: sn)
  case Nil
  then show ?case by simp
next
  case (Cons l lines)
  then show ?case
    by (cases "header_line l sn") (auto dest: header_line_error)
qed

lemma header_block_single: "header_block [(l, nl)] = l @ nl"
  by (simp add: header_block_def)


lemma key_value_line_valid: "key_value_line l \<Longrightarrow> valid_header_line l \<and> plain_line l"
  by (simp add: key_value_line_def valid_header_line_def header_entry_split plain_line_no_LF)

lemma grammar_header_wellformed: "grammar_header hl \<Longrightarrow> wellformed_header hl"
  by (auto simp: grammar_header_def wellformed_header_def list_all_iff dest: key_value_line_valid)

lemma wellformed_read_lines:
  assumes "wellformed_header hl"
  shows "read_lines hl = map fst hl"
proof -
  from assms have ne: "hl \<noteq> []" by (simp add: wellformed_header_def)
  then have "fst (last hl) \<in> set (map fst hl)" by simp
  with assms have "valid_header_line (fst (last hl))" by (rule wellformed_header_valid)
  then have "CHR '':'' \<in> set (fst (last hl))" by (rule valid_header_line_colon)
  then have "fst (last hl) \<noteq> []" by auto
  then show ?thesis by (simp add: read_lines_def)
qed

lemma parse_snippet_grammar:
  assumes "grammar_header hl" and "newline nl1" and "newline nl2"
  shows "\<exists>sn. parse_snippet p n (''---'' @ nl1 @ header_block hl @ ''---'' @ nl2 @ c) = Inr sn
           \<and> path sn = p \<and> name sn = n
           \<and> description sn = last_value ''description'' n (map fst hl)
           \<and> tabTrigger sn = last_value ''tabTrigger'' [] (map fst hl)
           \<and> scope sn = last_value ''scope'' [] (map fst hl)
           \<and> linesep sn = snd (last hl)
           \<and> content sn = (if nl2 = [CR] \<and> prefix [LF] c then tl c else c)"
proof -
  from assms(1) have w: "wellformed_header hl" by (rule grammar_header_wellformed)
  then have ne: "hl \<noteq> []" by (simp add: wellformed_header_def)
  let ?sn0 = "\<lparr>path = p, name = n, description = n, tabTrigger = [], scope = [],
            linesep = snd (last hl),
            content = (if nl2 = [CR] \<and> prefix [LF] c then tl c else c)\<rparr>"
  have ps: "parse_snippet p n (''---'' @ nl1 @ header_block hl @ ''---'' @ nl2 @ c)
      = header_lines (map fst hl) ?sn0"
    using parse_snippet_block[OF wellformed_block_ok[OF w] ne assms(2,3), of p n c]
    by (simp only: wellformed_read_lines[OF w])
  have "\<forall>l\<in>set (map fst hl). valid_header_line l"
    using wellformed_header_valid[OF w] by blast
  then obtain sn where sn: "header_lines (map fst hl) ?sn0 = Inr sn"
    using header_lines_Inr_iff[of "map fst hl" ?sn0] by blast
  from header_lines_fields[OF sn] ps sn show ?thesis by simp
qed

section \<open>Header lines\<close>




text \<open>
  C2, as the claim states it, fails: an empty header line is fatal, but it is reported
  with the header-line error and not with the unknown-key error for the empty key. The
  pattern of a line needs a colon, so an empty line yields no key at all.
\<close>

theorem empty_header_line_not_unknown_key:
  "parse_snippet ''p'' ''n'' (''---'' @ [LF] @ ''scope: a'' @ [LF, LF] @ ''tabTrigger: b'' @ [LF] @ ''---'' @ [LF] @ ''x'')
   = Inl (SyntaxError ''Unable to parse SaneSnippet header'')
   \<and> parse_snippet ''p'' ''n''
       (''---'' @ [LF] @ ''scope: a'' @ [LF, LF] @ ''tabTrigger: b'' @ [LF] @ ''---'' @ [LF] @ ''x'')
     \<noteq> Inl (SyntaxError ''Unexpected SaneSnippet property: \"\"'')"
  by code_simp

text \<open>
  C2, amended. An empty line of the header block is fatal when it is not the last line of
  the block, and is skipped when it is the last line, the one right before the closing
  \<open>---\<close>. In three parts:
  \<^item> for every document on which the template matches, if an empty line is among the lines
    that \<open>str.splitlines()\<close> finds in the captured header, parse fails; the error is the
    header-line error \<open>Unable to parse SaneSnippet header\<close> (never the unknown-key error)
    when the lines before the first empty line are valid header lines;
  \<^item> for every document whose header block is written line by line (no line holding a
    line boundary or being \<open>---\<close>), if a line other than the last is empty, parse fails,
    with the header-line error when the lines before the first empty line are valid;
  \<^item> for every such document whose last header line is empty and whose other header
    lines are valid, parse succeeds: the empty last line is not read (the template takes
    its newline as the line separator, and \<open>str.splitlines()\<close> opens no line after the
    last boundary of the header).
\<close>

theorem empty_header_line_is_a_header_error:
  "(template_match text = Some (h, ls, c) \<and> [] \<in> set (splitlines h) \<longrightarrow>
      (\<exists>e. parse_snippet p n text = Inl e)
      \<and> ((\<forall>l\<in>set (takeWhile (\<lambda>l. l \<noteq> []) (splitlines h)). valid_header_line l) \<longrightarrow>
           parse_snippet p n text = Inl (SyntaxError ''Unable to parse SaneSnippet header'')))
   \<and> (block_ok nl1 hl \<and> newline nl1 \<and> newline nl2 \<and> [] \<in> set (map fst (butlast hl)) \<longrightarrow>
      (\<exists>e. parse_snippet p n (''---'' @ nl1 @ header_block hl @ ''---'' @ nl2 @ d) = Inl e)
      \<and> ((\<forall>l\<in>set (takeWhile (\<lambda>l. l \<noteq> []) (map fst (butlast hl))). valid_header_line l) \<longrightarrow>
           parse_snippet p n (''---'' @ nl1 @ header_block hl @ ''---'' @ nl2 @ d)
             = Inl (SyntaxError ''Unable to parse SaneSnippet header'')))
   \<and> (block_ok nl1 hl \<and> hl \<noteq> [] \<and> newline nl1 \<and> newline nl2 \<and> fst (last hl) = []
        \<and> (\<forall>l\<in>set (map fst (butlast hl)). valid_header_line l) \<longrightarrow>
      (\<exists>sn. parse_snippet p n (''---'' @ nl1 @ header_block hl @ ''---'' @ nl2 @ d) = Inr sn))"
proof (intro conjI impI)
  assume a: "template_match text = Some (h, ls, c) \<and> [] \<in> set (splitlines h)"
  then show "\<exists>e. parse_snippet p n text = Inl e"
    using header_lines_first_empty[of "splitlines h"] by (simp add: parse_snippet_def)
  assume "\<forall>l\<in>set (takeWhile (\<lambda>l. l \<noteq> []) (splitlines h)). valid_header_line l"
  with a show "parse_snippet p n text = Inl (SyntaxError ''Unable to parse SaneSnippet header'')"
    by (simp add: parse_snippet_def header_lines_takeWhile)
next
  assume a: "block_ok nl1 hl \<and> newline nl1 \<and> newline nl2 \<and> [] \<in> set (map fst (butlast hl))"
  then have b: "block_ok nl1 hl" and n1: "newline nl1" and n2: "newline nl2" by simp_all
  from a have ne: "hl \<noteq> []" by auto
  from a ne have e: "[] \<in> set (read_lines hl)" using read_lines_butlast by blast
  note ps = parse_snippet_block[OF b ne n1 n2, of p n d]
  from header_lines_first_empty[OF e]
  show "\<exists>e. parse_snippet p n (''---'' @ nl1 @ header_block hl @ ''---'' @ nl2 @ d) = Inl e"
    unfolding ps by blast
  assume "\<forall>l\<in>set (takeWhile (\<lambda>l. l \<noteq> []) (map fst (butlast hl))). valid_header_line l"
  with a have "\<forall>l\<in>set (takeWhile (\<lambda>l. l \<noteq> []) (read_lines hl)). valid_header_line l"
    by (simp add: takeWhile_read_lines)
  with e show "parse_snippet p n (''---'' @ nl1 @ header_block hl @ ''---'' @ nl2 @ d)
             = Inl (SyntaxError ''Unable to parse SaneSnippet header'')"
    unfolding ps by (simp add: header_lines_takeWhile)
next
  assume a: "block_ok nl1 hl \<and> hl \<noteq> [] \<and> newline nl1 \<and> newline nl2 \<and> fst (last hl) = []
        \<and> (\<forall>l\<in>set (map fst (butlast hl)). valid_header_line l)"
  then have b: "block_ok nl1 hl" and ne: "hl \<noteq> []" and n1: "newline nl1" and n2: "newline nl2"
    by simp_all
  from a have "\<forall>l\<in>set (read_lines hl). valid_header_line l" by (simp add: read_lines_def)
  then obtain sn where "header_lines (read_lines hl)
           \<lparr>path = p, name = n, description = n, tabTrigger = [], scope = [],
            linesep = snd (last hl),
            content = (if nl2 = [CR] \<and> prefix [LF] d then tl d else d)\<rparr> = Inr sn"
    using header_lines_Inr_iff by blast
  then show "\<exists>sn. parse_snippet p n (''---'' @ nl1 @ header_block hl @ ''---'' @ nl2 @ d) = Inr sn"
    unfolding parse_snippet_block[OF b ne n1 n2, of p n d] by blast
qed

theorem empty_header_line_is_a_header_error_witness:
  "parse_snippet ''p'' ''n''
     (''---'' @ [LF] @ ''scope: a'' @ [LF, LF] @ ''tabTrigger: b'' @ [LF] @ ''---'' @ [LF] @ ''x'')
     = Inl (SyntaxError ''Unable to parse SaneSnippet header'')
   \<and> parse_snippet ''p'' ''n''
       (''---'' @ [LF] @ header_block [(''scope: a'', [LF]), ([], [CR]), (''tabTrigger: b'', [LF])]
          @ ''---'' @ [LF] @ ''x'')
     = Inl (SyntaxError ''Unable to parse SaneSnippet header'')
   \<and> (\<exists>sn. parse_snippet ''p'' ''n''
         (''---'' @ [LF] @ header_block [(''scope: a'', [LF]), ([], [LF])] @ ''---'' @ [LF] @ ''x'')
         = Inr sn)"
proof (intro conjI)
  let ?t = "''---'' @ [LF] @ ''scope: a'' @ [LF, LF] @ ''tabTrigger: b'' @ [LF] @ ''---'' @ [LF] @ ''x''"
  let ?h = "''scope: a'' @ [LF, LF] @ ''tabTrigger: b''"
  have tm: "template_match ?t = Some (?h, [LF], ''x'')"
    by code_simp
  have sl: "splitlines ?h = [''scope: a'', [], ''tabTrigger: b'']" by (simp add: is_linebreak_def)
  have v: "valid_header_line ''scope: a''" by code_simp
  have e: "[] \<in> set (splitlines ?h)" unfolding sl by simp
  have a: "\<forall>l\<in>set (takeWhile (\<lambda>l. l \<noteq> []) (splitlines ?h)). valid_header_line l"
    unfolding sl using v by simp
  from empty_header_line_is_a_header_error[of ?t ?h "[LF]" "''x''" "''p''" "''n''" "[]" "[]" "[]" "[]"]
    tm e a
  show "parse_snippet ''p'' ''n'' ?t = Inl (SyntaxError ''Unable to parse SaneSnippet header'')"
    by blast
next
  let ?hl = "[(''scope: a'', [LF]), ([], [CR]), (''tabTrigger: b'', [LF])]"
  have b: "block_ok [LF] ?hl" by code_simp
  have n1: "newline [LF]" by (simp add: newline_def)
  have e: "[] \<in> set (map fst (butlast ?hl))" by simp
  have v: "valid_header_line ''scope: a''" by code_simp
  have a: "\<forall>l\<in>set (takeWhile (\<lambda>l. l \<noteq> []) (map fst (butlast ?hl))). valid_header_line l"
    using v by simp
  from empty_header_line_is_a_header_error[of "[]" "[]" "[]" "[]" "''p''" "''n''" "[LF]" ?hl "[LF]" "''x''"]
    b n1 e a
  show "parse_snippet ''p'' ''n'' (''---'' @ [LF] @ header_block ?hl @ ''---'' @ [LF] @ ''x'')
     = Inl (SyntaxError ''Unable to parse SaneSnippet header'')"
    by blast
next
  let ?hl = "[(''scope: a'', [LF]), ([], [LF])]"
  have b: "block_ok [LF] ?hl" by code_simp
  have ne: "?hl \<noteq> []" by simp
  have n1: "newline [LF]" by (simp add: newline_def)
  have l: "fst (last ?hl) = []" by simp
  have v: "valid_header_line ''scope: a''" by code_simp
  have a: "\<forall>l\<in>set (map fst (butlast ?hl)). valid_header_line l" using v by simp
  from empty_header_line_is_a_header_error[of "[]" "[]" "[]" "[]" "''p''" "''n''" "[LF]" ?hl "[LF]" "''x''"]
    b ne n1 l a
  show "\<exists>sn. parse_snippet ''p'' ''n'' (''---'' @ [LF] @ header_block ?hl @ ''---'' @ [LF] @ ''x'') = Inr sn"
    by blast
qed




section \<open>The document\<close>




text \<open>
  C10. Parse accepts a bare \<open>\r\<close> as the newline after the opening \<open>---\<close>, as the newline
  after the closing \<open>---\<close> (when the content does not start with \<open>\n\<close>, the content is all
  that follows this \<open>\r\<close>), and as the newline that ends the header block, in which case
  the line separator of the record is exactly \<open>\r\<close>. The other newlines of the document
  are any of \<open>\n\<close>, \<open>\r\n\<close>, \<open>\r\<close>, and the header is any header of the grammar.
\<close>

theorem bare_carriage_return_is_a_newline:
  "grammar_header hl \<and> newline nl1 \<and> newline nl2 \<longrightarrow>
     (\<exists>sn. parse_snippet p n (''---'' @ [CR] @ header_block hl @ ''---'' @ nl2 @ c) = Inr sn)
   \<and> (\<exists>sn. parse_snippet p n (''---'' @ nl1 @ header_block hl @ ''---'' @ [CR] @ c) = Inr sn
          \<and> (\<not> prefix [LF] c \<longrightarrow> content sn = c))
   \<and> (snd (last hl) = [CR] \<longrightarrow>
        (\<exists>sn. parse_snippet p n (''---'' @ nl1 @ header_block hl @ ''---'' @ nl2 @ c) = Inr sn
           \<and> linesep sn = [CR]))"
proof (intro impI)
  assume a: "grammar_header hl \<and> newline nl1 \<and> newline nl2"
  then have g: "grammar_header hl" and n1: "newline nl1" and n2: "newline nl2" by simp_all
  have cr: "newline [CR]" by (simp add: newline_def)
  show "(\<exists>sn. parse_snippet p n (''---'' @ [CR] @ header_block hl @ ''---'' @ nl2 @ c) = Inr sn)
   \<and> (\<exists>sn. parse_snippet p n (''---'' @ nl1 @ header_block hl @ ''---'' @ [CR] @ c) = Inr sn
          \<and> (\<not> prefix [LF] c \<longrightarrow> content sn = c))
   \<and> (snd (last hl) = [CR] \<longrightarrow>
        (\<exists>sn. parse_snippet p n (''---'' @ nl1 @ header_block hl @ ''---'' @ nl2 @ c) = Inr sn
           \<and> linesep sn = [CR]))"
  proof (intro conjI impI)
    from parse_snippet_grammar[OF g cr n2, of p n c]
    show "\<exists>sn. parse_snippet p n (''---'' @ [CR] @ header_block hl @ ''---'' @ nl2 @ c) = Inr sn"
      by blast
  next
    from parse_snippet_grammar[OF g n1 cr, of p n c]
    obtain sn where "parse_snippet p n (''---'' @ nl1 @ header_block hl @ ''---'' @ [CR] @ c) = Inr sn"
      and "content sn = (if [CR] = [CR] \<and> prefix [LF] c then tl c else c)" by blast
    then show "\<exists>sn. parse_snippet p n (''---'' @ nl1 @ header_block hl @ ''---'' @ [CR] @ c) = Inr sn
          \<and> (\<not> prefix [LF] c \<longrightarrow> content sn = c)" by simp
  next
    assume "snd (last hl) = [CR]"
    with parse_snippet_grammar[OF g n1 n2, of p n c]
    show "\<exists>sn. parse_snippet p n (''---'' @ nl1 @ header_block hl @ ''---'' @ nl2 @ c) = Inr sn
           \<and> linesep sn = [CR]" by auto
  qed
qed

theorem bare_carriage_return_is_a_newline_witness:
  "parse_snippet ''p'' ''n'' (''---'' @ [CR] @ ''scope: a'' @ [CR] @ ''---'' @ [CR] @ ''x'')
     = Inr \<lparr>path = ''p'', name = ''n'', description = ''n'', tabTrigger = [], scope = ''a'',
            linesep = [CR], content = ''x''\<rparr>
   \<and> (\<exists>sn. parse_snippet ''p'' ''n''
         (''---'' @ [CR] @ header_block [(''scope: a'', [CR])] @ ''---'' @ [CR] @ ''x'') = Inr sn
         \<and> linesep sn = [CR])"
proof
  show "parse_snippet ''p'' ''n'' (''---'' @ [CR] @ ''scope: a'' @ [CR] @ ''---'' @ [CR] @ ''x'')
     = Inr \<lparr>path = ''p'', name = ''n'', description = ''n'', tabTrigger = [], scope = ''a'',
            linesep = [CR], content = ''x''\<rparr>"
    by code_simp
next
  let ?hl = "[(''scope: a'', [CR])]"
  have g: "grammar_header ?hl" by code_simp
  have n: "newline [CR]" by (simp add: newline_def)
  have l: "snd (last ?hl) = [CR]" by simp
  from bare_carriage_return_is_a_newline[of ?hl "[CR]" "[CR]" "''p''" "''n''" "''x''"] g n l
  show "\<exists>sn. parse_snippet ''p'' ''n''
         (''---'' @ [CR] @ header_block ?hl @ ''---'' @ [CR] @ ''x'') = Inr sn
         \<and> linesep sn = [CR]"
    by blast
qed

section \<open>Pairing by name\<close>

text \<open>
  C8. The claim: \<open>swap_extension\<close> changes only the trailing extension of a path (same
  directory, same base name), and applied twice it gives the path back. The code replaces
  every occurrence of the extension in the path, not only the trailing one: a source file
  in a directory whose name contains the source extension is paired with a path in
  another directory, and a generated file whose base name contains the source extension
  does not come back after two swaps.
\<close>

theorem swap_extension_replaces_every_occurrence:
  "swap_extension ''/a.sane-snippet/b.sane-snippet'' = ''/a.sane.sublime-snippet/b.sane.sublime-snippet''
   \<and> swap_extension ''x.sane-snippet.sane.sublime-snippet'' = ''x.sane-snippet.sane-snippet''
   \<and> swap_extension (swap_extension ''x.sane-snippet.sane.sublime-snippet'')
       = ''x.sane.sublime-snippet.sane.sublime-snippet''"
  by code_simp

end
